theory Spec2Isabelle
  imports Main "HOL-Library.AList"
begin

section \<open>Values, exceptions and pending computations\<close>

text \<open>
  The module \<^verbatim>\<open>prefect/engine/executors/sync.py\<close> defines \<^verbatim>\<open>SynchronousExecutor\<close>
  on top of \<^verbatim>\<open>dask.delayed\<close>, \<^verbatim>\<open>dask.bag\<close>, \<^verbatim>\<open>dask.compute\<close> and
  \<^verbatim>\<open>dask.config.set\<close>. Python values are terms of type \<open>'f val\<close>; \<open>'f\<close> names
  the user's functions, which an interpretation \<open>app\<close> runs on positional and keyword
  arguments and a state \<open>'s\<close> of side effects, returning a value or a raised exception.
  A pending computation is a node of the term: \<open>Delayed f args kwargs\<close> is
  \<^verbatim>\<open>dask.delayed(f)(*args, **kwargs)\<close>, \<open>BagFromDelayed d\<close> is
  \<^verbatim>\<open>dask.bag.from_delayed(d)\<close> (one partition) and \<open>BagMap f args kwargs\<close> is
  \<^verbatim>\<open>dask.bag.map(f, *args, **kwargs)\<close>. A term stands for a structure whose pending
  nodes are distinct objects: a node that occurs twice is run twice.
\<close>

datatype edge = Edge (key: string) (mapped: bool)

datatype exn = Exn (exn_class: string) (exn_msg: string)

datatype 'f func = StateToList | UnpackDictToBag | Fn 'f

datatype 'f val =
    VNone
  | VInt int
  | VStr string
  | VEdge edge
  | VList "'f val list"
  | VTuple "'f val list"
  | VDict "('f val \<times> 'f val) list"
  | Delayed "'f func" "'f val list" "(string \<times> 'f val) list"
  | BagFromDelayed "'f val"
  | BagMap "'f func" "'f val list" "(string \<times> 'f val) list"

type_synonym 'f kwargs = "(string \<times> 'f val) list"

type_synonym ('f, 's) app =
  "'f \<Rightarrow> 'f val list \<Rightarrow> 'f kwargs \<Rightarrow> 's \<Rightarrow> (exn + 'f val) \<times> 's"

fun is_bag :: "'f val \<Rightarrow> bool" where
  "is_bag (BagFromDelayed d) = True"
| "is_bag (BagMap f args kwargs) = True"
| "is_bag v = False"

fun is_delayed :: "'f val \<Rightarrow> bool" where
  "is_delayed (Delayed f args kwargs) = True"
| "is_delayed v = False"

text \<open>
  A value is pending when \<^verbatim>\<open>dask.compute\<close> finds a dask collection in it: the value
  itself, or an element of a list, a tuple or a dictionary at any depth.
\<close>

fun pending :: "'f val \<Rightarrow> bool" where
  "pending (Delayed f args kwargs) = True"
| "pending (BagFromDelayed d) = True"
| "pending (BagMap f args kwargs) = True"
| "pending (VList xs) = list_ex pending xs"
| "pending (VTuple xs) = list_ex pending xs"
| "pending (VDict kvs) = list_ex (\<lambda>kv. pending (fst kv) \<or> pending (snd kv)) kvs"
| "pending v = False"

fun py_iter :: "'f val \<Rightarrow> exn + 'f val list" where
  "py_iter (VList xs) = Inr xs"
| "py_iter (VTuple xs) = Inr xs"
| "py_iter (VDict kvs) = Inr (map fst kvs)"
| "py_iter (VStr cs) = Inr (map (\<lambda>c. VStr [c]) cs)"
| "py_iter v = Inl (Exn ''TypeError'' ''object is not iterable'')"

text \<open>
  A Python dictionary is an association list in insertion order with distinct keys.
  \<^verbatim>\<open>d.update(u)\<close> stores the items of \<open>u\<close> one by one: the value of a key already in
  \<open>d\<close> is replaced where it stands, a new key goes to the end.
\<close>

definition dict_update :: "('k \<times> 'v) list \<Rightarrow> ('k \<times> 'v) list \<Rightarrow> ('k \<times> 'v) list" where
  "dict_update d u = fold (\<lambda>kv. AList.update (fst kv) (snd kv)) u d"

definition dict_of :: "('k \<times> 'v) list \<Rightarrow> ('k \<times> 'v) list" where
  "dict_of kvs = dict_update [] kvs"


text \<open>
  Modelled from the spec: \<^verbatim>\<open>state_to_list\<close> of \<^verbatim>\<open>prefect.utilities.executors\<close>, which
  the module imports and whose source is not part of the files at hand. The
  specification's words for the conversion of a mapped value (component design, step 1 of
  \<^verbatim>\<open>map\<close>): a list is taken as the sequence of its elements in their order, a single
  item is wrapped as a one-element sequence.
\<close>

fun state_to_list :: "'f val list \<Rightarrow> 'f kwargs \<Rightarrow> exn + 'f val" where
  "state_to_list [VList xs] [] = Inr (VList xs)"
| "state_to_list [v] [] = Inr (VList [v])"
| "state_to_list args kwargs =
     Inl (Exn ''TypeError'' ''state_to_list() takes exactly one positional argument'')"

text \<open>
  Modelled from the spec: \<^verbatim>\<open>unpack_dict_to_bag\<close> of \<^verbatim>\<open>prefect.utilities.executors\<close>,
  whose source is not part of the files at hand either. The specification's words (step 3
  of \<^verbatim>\<open>map\<close>): each element is a dictionary keyed by Edge that holds, for each key, the
  value that comes with it; the call on line 74 passes the values positionally and the
  keys as the keyword \<^verbatim>\<open>keys\<close>.
\<close>

fun unpack_dict_to_bag :: "'f val list \<Rightarrow> 'f kwargs \<Rightarrow> exn + 'f val" where
  "unpack_dict_to_bag values [(kw, ks)] =
     (if kw = ''keys'' then
        (case py_iter ks of
           Inl e \<Rightarrow> Inl e
         | Inr keys \<Rightarrow> Inr (VDict (dict_of (zip keys values))))
      else Inl (Exn ''TypeError'' ''unpack_dict_to_bag() got an unexpected keyword argument''))"
| "unpack_dict_to_bag values kwargs =
     Inl (Exn ''TypeError'' ''unpack_dict_to_bag() takes exactly one keyword argument: keys'')"

section \<open>Running computations: state and exceptions\<close>

text \<open>
  A run takes the state of side effects and returns a value or the exception raised,
  with the state it leaves. \<open>bind\<close> stops at the first exception, as Python does.
\<close>

type_synonym ('s, 'a) run = "'s \<Rightarrow> (exn + 'a) \<times> 's"

definition return :: "'a \<Rightarrow> ('s, 'a) run" where
  "return x = (\<lambda>s. (Inr x, s))"

definition lift :: "exn + 'a \<Rightarrow> ('s, 'a) run" where
  "lift r = (\<lambda>s. (r, s))"

definition bind :: "('s, 'a) run \<Rightarrow> ('a \<Rightarrow> ('s, 'b) run) \<Rightarrow> ('s, 'b) run" where
  "bind m f = (\<lambda>s. case m s of (Inl e, s') \<Rightarrow> (Inl e, s') | (Inr x, s') \<Rightarrow> f x s')"

fun sequence :: "('s, 'a) run list \<Rightarrow> ('s, 'a list) run" where
  "sequence [] = return []"
| "sequence (m # ms) = bind m (\<lambda>y. bind (sequence ms) (\<lambda>ys. return (y # ys)))"

fun apply_func :: "('f, 's) app \<Rightarrow> 'f func \<Rightarrow> 'f val list \<Rightarrow> 'f kwargs
    \<Rightarrow> ('s, 'f val) run" where
  "apply_func app (Fn f) args kwargs = app f args kwargs"
| "apply_func app StateToList args kwargs = lift (state_to_list args kwargs)"
| "apply_func app UnpackDictToBag args kwargs = lift (unpack_dict_to_bag args kwargs)"

definition call_each :: "('f, 's) app \<Rightarrow> 'f func \<Rightarrow> ('f val list \<times> 'f kwargs) list
    \<Rightarrow> ('s, 'f val list) run" where
  "call_each app f calls = sequence (map (\<lambda>c. apply_func app f (fst c) (snd c)) calls)"

section \<open>One pass of dask.compute\<close>

text \<open>
  An argument of \<^verbatim>\<open>dask.bag.map\<close> is a bag, whose elements are zipped with those of the
  other bags, or anything else, which every call receives whole. A \<^verbatim>\<open>dask.delayed\<close>
  argument is computed once and its result is what every call receives. Any other
  positional argument is put into the task graph as it is, where dask reads a tuple whose
  head is callable as a task: a tuple headed by a \<^verbatim>\<open>dask.delayed\<close>, at the top or inside
  lists, is run as one and raises TypeError. A keyword argument that is neither a bag nor a
  \<^verbatim>\<open>dask.delayed\<close> is passed on as it is.
\<close>

datatype 'f bagarg = Zipped "'f val list" | Repeat "'f val"

fun task_tuple :: "'f val \<Rightarrow> bool" where
  "task_tuple (VTuple (Delayed f args kwargs # xs)) = True"
| "task_tuple (VList xs) = list_ex task_tuple xs"
| "task_tuple v = False"

definition bag_arg :: "'f val \<Rightarrow> ('s, 'f val) run \<Rightarrow> ('s, 'f bagarg) run" where
  "bag_arg x computed =
     (if is_bag x then
        bind computed (\<lambda>y. bind (lift (py_iter y)) (\<lambda>ys. return (Zipped ys)))
      else if is_delayed x then
        bind computed (\<lambda>y. return (Repeat y))
      else if task_tuple x then
        lift (Inl (Exn ''TypeError'' ''a tuple headed by a Delayed was run as a task''))
      else return (Repeat x))"

definition bag_kwarg :: "'f val \<Rightarrow> ('s, 'f val) run \<Rightarrow> ('s, 'f bagarg) run" where
  "bag_kwarg x computed =
     (if is_bag x then
        bind computed (\<lambda>y. bind (lift (py_iter y)) (\<lambda>ys. return (Zipped ys)))
      else if is_delayed x then
        bind computed (\<lambda>y. return (Repeat y))
      else return (Repeat x))"

fun zipped_lengths :: "'f bagarg list \<Rightarrow> nat list" where
  "zipped_lengths [] = []"
| "zipped_lengths (Zipped ys # bs) = length ys # zipped_lengths bs"
| "zipped_lengths (Repeat v # bs) = zipped_lengths bs"

fun pick :: "nat \<Rightarrow> 'f bagarg \<Rightarrow> 'f val" where
  "pick i (Zipped ys) = ys ! i"
| "pick i (Repeat v) = v"

fun is_zipped :: "'f bagarg \<Rightarrow> bool" where
  "is_zipped (Zipped ys) = True"
| "is_zipped (Repeat v) = False"

text \<open>
  \<^verbatim>\<open>dask.bag.map\<close> walks the bags in step, positional ones first in their order, then
  the keyword ones: it calls the function once for every index below the length of the
  shortest bag, in order, and stops at the first bag that is exhausted. Only then does it
  look whether a bag has an element left: the bags before the exhausted one have already
  given one more element than it has, the bags after it have not. If an element is left
  it raises ValueError, after the calls; if none is left the shorter length stands (so a
  first bag that is one element longer than the others is cut short without an error).
\<close>

definition bag_length :: "'f bagarg list \<Rightarrow> exn + nat" where
  "bag_length bs =
     (case zipped_lengths bs of
        [] \<Rightarrow> Inl (Exn ''ValueError'' ''At least one argument must be a Bag.'')
      | n # ns \<Rightarrow> Inr (fold min ns n))"

fun left_over :: "nat \<Rightarrow> nat list \<Rightarrow> bool" where
  "left_over m [] = False"
| "left_over m (l # ls) =
     (if l = m then list_ex (\<lambda>k. m < k) ls else (Suc m < l \<or> left_over m ls))"

definition bags_misaligned :: "'f bagarg list \<Rightarrow> bool" where
  "bags_misaligned bs =
     (case zipped_lengths bs of
        [] \<Rightarrow> False
      | n # ns \<Rightarrow> left_over (fold min ns n) (n # ns))"

definition misaligned_error :: exn where
  "misaligned_error = Exn ''ValueError''
     ''map called with multiple bags that aren't identically partitioned.''"

text \<open>
  The call for element \<open>i\<close>: the positional arguments, then the keyword arguments that
  are not bags, then the keyword arguments taken from bags. The index is below the length
  of the shortest bag wherever \<open>element_call\<close> is used.
\<close>

definition element_call :: "'f bagarg list \<Rightarrow> (string \<times> 'f bagarg) list \<Rightarrow> nat
    \<Rightarrow> 'f val list \<times> 'f kwargs" where
  "element_call bas bkw i =
     (map (pick i) bas,
      map (\<lambda>kb. (fst kb, pick i (snd kb))) (filter (\<lambda>kb. \<not> is_zipped (snd kb)) bkw) @
      map (\<lambda>kb. (fst kb, pick i (snd kb))) (filter (\<lambda>kb. is_zipped (snd kb)) bkw))"

text \<open>
  \<open>force app v\<close> is \<^verbatim>\<open>dask.compute(v)[0]\<close>: lists, tuples and dictionaries are traversed,
  every dask collection found is computed, anything else is returned as it is. The
  arguments of a delayed call are computed the same way before the function runs. What a
  function returns is not computed further, so a function that returns a pending
  computation leaves it for the next pass.
\<close>

fun force :: "('f, 's) app \<Rightarrow> 'f val \<Rightarrow> ('s, 'f val) run" where
  "force app VNone = return VNone"
| "force app (VInt i) = return (VInt i)"
| "force app (VStr cs) = return (VStr cs)"
| "force app (VEdge e) = return (VEdge e)"
| "force app (VList xs) = bind (sequence (map (force app) xs)) (\<lambda>ys. return (VList ys))"
| "force app (VTuple xs) = bind (sequence (map (force app) xs)) (\<lambda>ys. return (VTuple ys))"
| "force app (VDict kvs) =
     bind (sequence (map (\<lambda>kv. bind (force app (fst kv)) (\<lambda>k'.
                               bind (force app (snd kv)) (\<lambda>v'. return (k', v')))) kvs))
          (\<lambda>kvs'. return (VDict kvs'))"
| "force app (Delayed f args kwargs) =
     bind (sequence (map (force app) args)) (\<lambda>args'.
     bind (sequence (map (\<lambda>kv. bind (force app (snd kv)) (\<lambda>v'. return (fst kv, v'))) kwargs))
       (\<lambda>kwargs'. apply_func app f args' kwargs'))"
| "force app (BagFromDelayed d) =
     bind (force app d) (\<lambda>p. bind (lift (py_iter p)) (\<lambda>ys. return (VList ys)))"
| "force app (BagMap f args kwargs) =
     bind (sequence (map (\<lambda>x. bag_arg x (force app x)) args)) (\<lambda>bas.
     bind (sequence (map (\<lambda>kv. bind (bag_kwarg (snd kv) (force app (snd kv)))
                                  (\<lambda>b. return (fst kv, b))) kwargs)) (\<lambda>bkw.
     bind (lift (bag_length (bas @ map snd bkw))) (\<lambda>n.
     bind (call_each app f (map (element_call bas bkw) [0..<n])) (\<lambda>rs.
     if bags_misaligned (bas @ map snd bkw) then lift (Inl misaligned_error)
     else return (VList rs)))))"

section \<open>SynchronousExecutor\<close>

text \<open>
  \<^verbatim>\<open>submit\<close>, line 90: \<^verbatim>\<open>return dask.delayed(fn)(*args, **kwargs)\<close>.
\<close>

definition submit :: "'f \<Rightarrow> 'f val list \<Rightarrow> 'f kwargs \<Rightarrow> 'f val" where
  "submit fn args kwargs = Delayed (Fn fn) args kwargs"

text \<open>
  \<^verbatim>\<open>wait\<close>, lines 103 to 106: four nested \<^verbatim>\<open>dask.compute(...)[0]\<close>, innermost first.
  The parameter \<^verbatim>\<open>timeout\<close> (a \<^verbatim>\<open>datetime.timedelta\<close>, in microseconds, or None) is
  not read by the body.
\<close>

definition wait :: "('f, 's) app \<Rightarrow> 'f val \<Rightarrow> int option \<Rightarrow> ('s, 'f val) run" where
  "wait app futures timeout =
     bind (force app futures) (\<lambda>c1.
     bind (force app c1) (\<lambda>c2.
     bind (force app c2) (\<lambda>c3.
     force app c3)))"

text \<open>
  \<^verbatim>\<open>dask.bag.map\<close> at call time: it raises when no positional or keyword argument is a
  bag, and otherwise only registers the mapped call.
\<close>

definition bag_map :: "'f func \<Rightarrow> 'f val list \<Rightarrow> 'f kwargs \<Rightarrow> exn + 'f val" where
  "bag_map f args kwargs =
     (if list_ex is_bag (args @ map snd kwargs) then Inr (BagMap f args kwargs)
      else Inl (Exn ''ValueError'' ''At least one argument must be a Bag.''))"

text \<open>
  \<^verbatim>\<open>map\<close>, lines 61 to 65: the dictionary comprehension \<^verbatim>\<open>needs_bagging\<close>. Line 62
  is \<open>bag_of\<close>.
\<close>

definition bag_of :: "'f val \<Rightarrow> 'f val" where
  "bag_of v = BagFromDelayed (Delayed StateToList [v] [])"

definition needs_bagging :: "(edge \<times> 'f val) list \<Rightarrow> (edge \<times> 'f val) list" where
  "needs_bagging upstream_states =
     dict_of (map (\<lambda>ev. (fst ev, bag_of (snd ev)))
       (filter (\<lambda>ev. mapped (fst ev) \<and> \<not> is_bag (snd ev)) upstream_states))"

text \<open>
  Line 73: \<^verbatim>\<open>keys, values = list(zip(*upstream_states.items()))\<close>. The zip of no items
  is empty, and unpacking it into two names raises.
\<close>

definition unpack_items :: "(edge \<times> 'f val) list \<Rightarrow> exn + (edge list \<times> 'f val list)" where
  "unpack_items items =
     (case items of
        [] \<Rightarrow> Inl (Exn ''ValueError'' ''not enough values to unpack (expected 2, got 0)'')
      | _ # _ \<Rightarrow> Inr (map fst items, map snd items))"

text \<open>
  Lines 73 and 74: \<^verbatim>\<open>bagged_states = dask.bag.map(unpack_dict_to_bag, *values, keys=keys)\<close>.
\<close>

definition bagged_states :: "(edge \<times> 'f val) list \<Rightarrow> exn + 'f val" where
  "bagged_states upstream_states =
     (case unpack_items upstream_states of
        Inl e \<Rightarrow> Inl e
      | Inr kv \<Rightarrow> bag_map UnpackDictToBag (snd kv) [(''keys'', VTuple (map VEdge (fst kv)))])"

text \<open>
  \<^verbatim>\<open>map\<close>, lines 55 to 76. The second component of the result is the caller's
  \<^verbatim>\<open>upstream_states\<close> dictionary as the call leaves it.
\<close>

definition map_exec :: "'f \<Rightarrow> 'f val list \<Rightarrow> (edge \<times> 'f val) list option \<Rightarrow> 'f kwargs
    \<Rightarrow> (exn + 'f val) \<times> (edge \<times> 'f val) list option" where
  "map_exec fn args upstream_states kwargs =
     (case upstream_states of
        None \<Rightarrow> (Inl (Exn ''AssertionError'' []), None)
      | Some us \<Rightarrow>
          (let us' = dict_update us (needs_bagging us) in
           case bagged_states us' of
             Inl e \<Rightarrow> (Inl e, Some us')
           | Inr b \<Rightarrow> (bag_map (Fn fn) args ((''upstream_states'', b) # kwargs), Some us')))"

text \<open>
  \<^verbatim>\<open>start\<close>, lines 21 to 29. The dask configuration is a map from keys to settings.
  \<^verbatim>\<open>dask.config.set(scheduler="synchronous")\<close> stores the setting and remembers the old
  one; leaving the \<^verbatim>\<open>with\<close> block puts the old one back (or deletes the key when there
  was none). The scope body runs between the two, on the configuration, and either returns
  or raises; \<^verbatim>\<open>contextmanager\<close> throws the exception into the generator at the
  \<^verbatim>\<open>yield\<close>, so the \<^verbatim>\<open>with\<close> block is left on both paths.
\<close>

type_synonym config = "string \<rightharpoonup> string"

definition config_set :: "string \<Rightarrow> string \<Rightarrow> config \<Rightarrow> config \<times> string option" where
  "config_set k v config = (config(k \<mapsto> v), config k)"

definition config_exit :: "string \<Rightarrow> string option \<Rightarrow> config \<Rightarrow> config" where
  "config_exit k old config = config(k := old)"

definition start :: "(config \<Rightarrow> (exn + 'a) \<times> config) \<Rightarrow> config \<Rightarrow> (exn + 'a) \<times> config" where
  "start body config =
     (let entered = config_set ''scheduler'' ''synchronous'' config in
      case body (fst entered) of
        (Inl e, cfg) \<Rightarrow> (Inl e, config_exit ''scheduler'' (snd entered) cfg)
      | (Inr r, cfg) \<Rightarrow> (Inr r, config_exit ''scheduler'' (snd entered) cfg))"

definition raised_class :: "exn + 'a \<Rightarrow> string option" where
  "raised_class r = (case r of Inl e \<Rightarrow> Some (exn_class e) | Inr v \<Rightarrow> None)"

text \<open>
  What lines 61 to 66 do to one item of \<^verbatim>\<open>upstream_states\<close>: the value of a mapped
  edge that is not a bag yet is replaced by its bag, any other item is kept.
\<close>

definition bag_entry :: "edge \<times> 'f val \<Rightarrow> edge \<times> 'f val" where
  "bag_entry ev = (if mapped (fst ev) \<and> \<not> is_bag (snd ev) then (fst ev, bag_of (snd ev)) else ev)"

text \<open>
  \<open>passes app n\<close> is \<^verbatim>\<open>dask.compute(...)[0]\<close> applied \<open>n\<close> times in a row.
\<close>

fun passes :: "('f, 's) app \<Rightarrow> nat \<Rightarrow> 'f val \<Rightarrow> ('s, 'f val) run" where
  "passes app 0 v = return v"
| "passes app (Suc n) v = bind (force app v) (passes app n)"

section \<open>Sample functions and scope bodies\<close>

text \<open>
  \<open>nested_fn n\<close> returns 42 when \<open>n = 0\<close> and otherwise a new delayed call of
  \<open>nested_fn (n - 1)\<close>; \<open>counting_fn\<close> returns 42 and counts its runs in the state;
  \<open>raising_fn\<close> is \<^verbatim>\<open>raise ValueError("x")\<close>; \<open>failing_body\<close> is a scope body that
  raises without touching the configuration.
\<close>

definition nested_fn :: "(nat, unit) app" where
  "nested_fn f args kwargs s =
     (if f = 0 then (Inr (VInt 42), s) else (Inr (Delayed (Fn (f - 1)) [] []), s))"

definition counting_fn :: "(unit, nat) app" where
  "counting_fn f args kwargs s = (Inr (VInt 42), Suc s)"

definition raising_fn :: "(unit, nat) app" where
  "raising_fn f args kwargs s = (Inl (Exn ''ValueError'' ''x''), Suc s)"

text \<open>
  \<open>times_ten\<close> takes the one entry of its \<^verbatim>\<open>upstream_states\<close> and returns ten times
  its number, counting its runs in the state.
\<close>

definition times_ten :: "(unit, nat) app" where
  "times_ten f args kwargs s =
     (case kwargs of
        [(kw, VDict [(k, VInt i)])] \<Rightarrow> (Inr (VInt (10 * i)), Suc s)
      | _ \<Rightarrow> (Inl (Exn ''TypeError'' ''unexpected arguments''), s))"

definition failing_body :: "config \<Rightarrow> (exn + unit) \<times> config" where
  "failing_body cfg = (Inl (Exn ''RuntimeError'' ''boom''), cfg)"

section \<open>Laws of runs and of one pass\<close>

lemma bind_return_left: "bind (return x) f = f x"
  by (simp add: bind_def return_def)

lemma bind_return_right: "bind m return = m"
  by (auto simp: bind_def return_def fun_eq_iff split: prod.splits sum.splits)

lemma bind_assoc: "bind (bind m f) g = bind m (\<lambda>x. bind (f x) g)"
  by (auto simp: bind_def fun_eq_iff split: prod.splits sum.splits)

lemma bind_lift_Inr: "bind (lift (Inr x)) f = f x"
  by (simp add: bind_def lift_def)

lemma bind_Inr: "m s = (Inr x, s') \<Longrightarrow> bind m f s = f x s'"
  by (simp add: bind_def)

lemma bind_Inl: "m s = (Inl e, s') \<Longrightarrow> bind m f s = (Inl e, s')"
  by (simp add: bind_def)

lemma sequence_map_return:
  "(\<And>x. x \<in> set xs \<Longrightarrow> f x = return (g x)) \<Longrightarrow> sequence (map f xs) = return (map g xs)"
  by (induction xs) (simp_all add: bind_return_left)

text \<open>A value without pending computations is a fixed point of a pass, and nothing runs.\<close>

lemma force_resolved: "\<not> pending v \<Longrightarrow> force app v = return v"
proof (induction app v rule: force.induct)
  case (5 app xs)
  then have "sequence (map (force app) xs) = return (map (\<lambda>x. x) xs)"
    by (intro sequence_map_return) (auto simp: list_ex_iff)
  then show ?case by (simp add: bind_return_left)
next
  case (6 app xs)
  then have "sequence (map (force app) xs) = return (map (\<lambda>x. x) xs)"
    by (intro sequence_map_return) (auto simp: list_ex_iff)
  then show ?case by (simp add: bind_return_left)
next
  case (7 app kvs)
  then have "sequence (map (\<lambda>kv. bind (force app (fst kv)) (\<lambda>k'.
                               bind (force app (snd kv)) (\<lambda>v'. return (k', v')))) kvs)
      = return (map (\<lambda>x. x) kvs)"
    by (intro sequence_map_return) (auto simp: list_ex_iff bind_return_left)
  then show ?case by (simp add: bind_return_left)
qed simp_all

lemma passes_resolved: "\<not> pending v \<Longrightarrow> passes app n v = return v"
  by (induction n) (simp_all add: force_resolved bind_return_left)

lemma passes_zero: "passes app 0 = return"
  by (rule ext) simp

lemma passes_Suc: "passes app (Suc n) = (\<lambda>v. bind (force app v) (passes app n))"
  by (rule ext) simp

lemma passes_add_fun: "passes app (k + m) = (\<lambda>v. bind (passes app k v) (passes app m))"
proof (induction k)
  case 0
  show ?case by (simp add: passes_zero bind_return_left)
next
  case (Suc k)
  show ?case
    unfolding add_Suc passes_Suc Suc.IH by (simp add: bind_assoc)
qed

text \<open>\<^verbatim>\<open>wait\<close> is four passes, whatever the timeout.\<close>

lemma wait_passes: "wait app futures timeout = passes app 4 futures"
  by (simp add: wait_def numeral_eq_Suc passes_Suc passes_zero bind_return_right)

lemma wait_after_passes:
  assumes "k \<le> 4" and "passes app k futures s = (Inr r, s')" and "\<not> pending r"
  shows "wait app futures timeout s = (Inr r, s')"
proof -
  from assms(1) have "passes app 4 futures = bind (passes app k futures) (passes app (4 - k))"
    using passes_add_fun [of app k "4 - k"] by simp
  then have "passes app 4 futures s = passes app (4 - k) r s'"
    using assms(2) by (simp add: bind_Inr)
  then show ?thesis
    using assms(3) by (simp add: wait_passes passes_resolved return_def)
qed

lemma force_submit_resolved_args:
  assumes "\<not> pending (VList args)" and "\<not> pending (VList (map snd kwargs))"
  shows "force app (submit fn args kwargs) = app fn args kwargs"
proof -
  have a: "sequence (map (force app) args) = return (map (\<lambda>x. x) args)"
    using assms(1) by (intro sequence_map_return) (auto simp: list_ex_iff force_resolved)
  have k: "sequence (map (\<lambda>kv. bind (force app (snd kv)) (\<lambda>v'. return (fst kv, v'))) kwargs)
      = return (map (\<lambda>x. x) kwargs)"
    using assms(2)
    by (intro sequence_map_return) (auto simp: list_ex_iff force_resolved bind_return_left)
  show ?thesis
    by (simp add: submit_def a k bind_return_left)
qed

section \<open>Dictionary updates\<close>

lemma update_new_key: "k \<notin> fst ` set d \<Longrightarrow> AList.update k v d = d @ [(k, v)]"
  by (induction d) auto

lemma dict_of_distinct: "distinct (map fst kvs) \<Longrightarrow> dict_of kvs = kvs"
proof -
  have "distinct (map fst (d @ kvs)) \<Longrightarrow> fold (\<lambda>kv. AList.update (fst kv) (snd kv)) kvs d = d @ kvs"
    for d :: "('a \<times> 'b) list"
  proof (induction kvs arbitrary: d)
    case Nil
    show ?case by simp
  next
    case (Cons kv kvs)
    from Cons.prems have "fst kv \<notin> fst ` set d" by auto
    then have "AList.update (fst kv) (snd kv) d = d @ [kv]"
      by (simp add: update_new_key)
    moreover from Cons.prems have "distinct (map fst ((d @ [kv]) @ kvs))" by simp
    ultimately show ?case using Cons.IH [of "d @ [kv]"] by simp
  qed
  from this [of "[]"] show "distinct (map fst kvs) \<Longrightarrow> dict_of kvs = kvs"
    by (simp add: dict_of_def dict_update_def)
qed

lemma update_present_key:
  "distinct (map fst d) \<Longrightarrow> k \<in> fst ` set d \<Longrightarrow>
   AList.update k v d = map (\<lambda>kv. if fst kv = k then (k, v) else kv) d"
proof (induction d)
  case Nil
  then show ?case by simp
next
  case (Cons a d)
  show ?case
  proof (cases "fst a = k")
    case True
    with Cons.prems have "k \<notin> fst ` set d" by auto
    then have "map (\<lambda>kv. if fst kv = k then (k, v) else kv) d = d"
      by (intro map_idI) force
    with True show ?thesis by simp
  next
    case False
    with Cons show ?thesis by auto
  qed
qed

lemma dict_update_present:
  "distinct (map fst d) \<Longrightarrow> distinct (map fst u) \<Longrightarrow> fst ` set u \<subseteq> fst ` set d \<Longrightarrow>
   dict_update d u = map (\<lambda>kv. case map_of u (fst kv) of None \<Rightarrow> kv | Some v \<Rightarrow> (fst kv, v)) d"
proof (induction u arbitrary: d)
  case Nil
  show ?case by (simp add: dict_update_def)
next
  case (Cons x u)
  let ?d = "AList.update (fst x) (snd x) d"
  let ?h = "\<lambda>kv. if fst kv = fst x then (fst x, snd x) else kv"
  let ?g = "\<lambda>kv. case map_of u (fst kv) of None \<Rightarrow> kv | Some v \<Rightarrow> (fst kv, v)"
  have d': "?d = map ?h d"
    using Cons.prems by (intro update_present_key) auto
  have keys: "map fst ?d = map fst d"
    unfolding d' by (simp add: comp_def if_distrib cong: if_cong)
  have keyset: "fst ` set ?d = fst ` set d"
    using keys by (metis set_map)
  have "distinct (map fst ?d)" using Cons.prems(1) keys by simp
  moreover have "distinct (map fst u)" using Cons.prems(2) by simp
  moreover have "fst ` set u \<subseteq> fst ` set ?d" using Cons.prems(3) keyset by simp
  ultimately have ih: "dict_update ?d u = map ?g ?d"
    by (rule Cons.IH)
  have "fst x \<notin> fst ` set u" using Cons.prems(2) by auto
  then have none: "map_of u (fst x) = None" by (simp add: map_of_eq_None_iff)
  have pointwise: "?g (?h kv)
      = (case map_of (x # u) (fst kv) of None \<Rightarrow> kv | Some v \<Rightarrow> (fst kv, v))" for kv
    using none by (cases "fst kv = fst x") (simp_all split: option.splits)
  have "dict_update d (x # u) = dict_update ?d u"
    by (simp add: dict_update_def)
  also have "\<dots> = map ?g (map ?h d)"
    using ih d' by simp
  also have "\<dots> = map (\<lambda>kv. ?g (?h kv)) d"
    by (simp add: comp_def)
  also have "\<dots> = map (\<lambda>kv. case map_of (x # u) (fst kv) of None \<Rightarrow> kv
      | Some v \<Rightarrow> (fst kv, v)) d"
    by (simp only: pointwise)
  finally show ?case .
qed

lemma needs_bagging_eq:
  "distinct (map fst us) \<Longrightarrow>
   needs_bagging us = map (\<lambda>ev. (fst ev, bag_of (snd ev)))
       (filter (\<lambda>ev. mapped (fst ev) \<and> \<not> is_bag (snd ev)) us)"
  unfolding needs_bagging_def
  by (intro dict_of_distinct) (simp add: comp_def distinct_map_filter)

lemma upstream_states_after:
  assumes "distinct (map fst us)"
  shows "dict_update us (needs_bagging us) = map bag_entry us"
proof -
  let ?p = "\<lambda>ev :: edge \<times> 'a val. mapped (fst ev) \<and> \<not> is_bag (snd ev)"
  let ?u = "map (\<lambda>ev. (fst ev, bag_of (snd ev))) (filter ?p us)"
  have u: "needs_bagging us = ?u" using assms by (rule needs_bagging_eq)
  have du: "distinct (map fst ?u)" using assms by (simp add: comp_def distinct_map_filter)
  have sub: "fst ` set ?u \<subseteq> fst ` set us" by force
  have look_some: "map_of ?u (fst ev) = Some (bag_of (snd ev))"
    if "ev \<in> set us" and "?p ev" for ev
  proof -
    from that have "(fst ev, bag_of (snd ev)) \<in> set ?u" by force
    with du show ?thesis by (rule map_of_is_SomeI)
  qed
  have look_none: "map_of ?u (fst ev) = None"
    if "ev \<in> set us" and "\<not> ?p ev" for ev
  proof -
    have "fst ev \<notin> fst ` set ?u"
    proof
      assume "fst ev \<in> fst ` set ?u"
      then obtain ev' where e: "ev' \<in> set us" "?p ev'" "fst ev' = fst ev" by auto
      with that assms have "ev' = ev" by (metis eq_key_imp_eq_value prod.collapse)
      with e that show False by simp
    qed
    then show ?thesis by (rule map_of_eq_None_iff [THEN iffD2])
  qed
  have entry: "(case map_of ?u (fst ev) of None \<Rightarrow> ev | Some v \<Rightarrow> (fst ev, v)) = bag_entry ev"
    if "ev \<in> set us" for ev
  proof (cases "?p ev")
    case True
    with that have m: "map_of ?u (fst ev) = Some (bag_of (snd ev))" by (rule look_some)
    show ?thesis unfolding m using True by (simp add: bag_entry_def)
  next
    case False
    with that have m: "map_of ?u (fst ev) = None" by (rule look_none)
    show ?thesis unfolding m using False by (auto simp: bag_entry_def)
  qed
  have "dict_update us ?u
      = map (\<lambda>kv. case map_of ?u (fst kv) of None \<Rightarrow> kv | Some v \<Rightarrow> (fst kv, v)) us"
    using assms du sub by (rule dict_update_present)
  also have "\<dots> = map bag_entry us"
    by (rule map_cong [OF refl]) (rule entry)
  finally show ?thesis by (simp add: u)
qed

section \<open>Computing the bags that map builds\<close>

lemma lift_Inr: "lift (Inr x) = return x"
  by (simp add: lift_def return_def)

lemma force_bag_of_list:
  assumes "\<not> pending (VList xs)"
  shows "force app (bag_of (VList xs)) = return (VList xs)"
proof -
  have "force app (VList xs) = return (VList xs)"
    using assms by (rule force_resolved)
  then have "force app (Delayed StateToList [VList xs] []) = return (VList xs)"
    by (simp add: bind_return_left lift_Inr)
  then show ?thesis
    by (simp add: bag_of_def bind_return_left lift_Inr)
qed

lemma zipped_lengths_append:
  "zipped_lengths (bs @ cs) = zipped_lengths bs @ zipped_lengths cs"
  by (induction bs rule: zipped_lengths.induct) simp_all

lemma bag_length_keys: "bag_length (bas @ [Repeat v]) = bag_length bas"
  by (simp add: bag_length_def zipped_lengths_append)

lemma bags_misaligned_keys: "bags_misaligned (bas @ [Repeat v]) = bags_misaligned bas"
  by (simp add: bags_misaligned_def zipped_lengths_append)

lemma sequence_keys_kwarg:
  "sequence (map (\<lambda>kv. bind (bag_kwarg (snd kv) (force app (snd kv)))
        (\<lambda>b. return (fst kv, b))) [(''keys'', VTuple ks)])
      = return [(''keys'', Repeat (VTuple ks))]"
  by (simp add: bag_kwarg_def bind_return_left)

lemma call_each_unpack:
  "call_each app UnpackDictToBag
        (map (element_call bas [(''keys'', Repeat (VTuple ks))]) [0..<n])
      = return (map (\<lambda>i. VDict (dict_of (zip ks (map (pick i) bas)))) [0..<n])"
  unfolding call_each_def map_map
  by (rule sequence_map_return) (simp add: element_call_def lift_Inr)

lemma force_unpack_step:
  assumes "sequence (map (\<lambda>x. bag_arg x (force app x)) values) s = (Inr bas, s1)"
  shows "force app (BagMap UnpackDictToBag values [(''keys'', VTuple ks)]) s
    = bind (lift (bag_length bas))
        (\<lambda>n. if bags_misaligned bas then lift (Inl misaligned_error)
              else return (VList (map (\<lambda>i. VDict (dict_of (zip ks (map (pick i) bas))))
                [0..<n]))) s1"
proof -
  have args: "bind (sequence (map (\<lambda>x. bag_arg x (force app x)) values)) f s = f bas s1"
    for f :: "'a bagarg list \<Rightarrow> ('b, 'a val) run"
    using assms by (rule bind_Inr)
  have "force app (BagMap UnpackDictToBag values [(''keys'', VTuple ks)]) s
      = bind (lift (bag_length (bas @ map snd [(''keys'', Repeat (VTuple ks) :: 'a bagarg)])))
          (\<lambda>n. bind (call_each app UnpackDictToBag
                 (map (element_call bas [(''keys'', Repeat (VTuple ks))]) [0..<n]))
               (\<lambda>rs. if bags_misaligned
                     (bas @ map snd [(''keys'', Repeat (VTuple ks) :: 'a bagarg)])
                   then lift (Inl misaligned_error) else return (VList rs))) s1"
    by (simp only: force.simps args sequence_keys_kwarg bind_return_left)
  then show ?thesis
    by (simp add: bag_length_keys bags_misaligned_keys call_each_unpack bind_return_left)
qed

lemma force_unpack:
  assumes "sequence (map (\<lambda>x. bag_arg x (force app x)) values) s = (Inr bas, s')"
    and "bag_length bas = Inr n" and "\<not> bags_misaligned bas"
  shows "force app (BagMap UnpackDictToBag values [(''keys'', VTuple ks)]) s
    = (Inr (VList (map (\<lambda>i. VDict (dict_of (zip ks (map (pick i) bas)))) [0..<n])), s')"
  unfolding force_unpack_step [OF assms(1)]
  using assms(2,3) by (simp add: bind_lift_Inr return_def)

lemma map_nth_upt: "map (\<lambda>i. f (xs ! i)) [0..<length xs] = map f xs"
  by (rule nth_equalityI) simp_all

lemma force_map_fn:
  assumes "is_bag b" and "force app b s = (Inr (VList els), s1)"
  shows "force app (BagMap (Fn fn) [] [(''upstream_states'', b)]) s
    = bind (sequence (map (\<lambda>el. app fn [] [(''upstream_states'', el)]) els))
        (\<lambda>rs. return (VList rs)) s1"
proof -
  have calls: "call_each app (Fn fn)
        (map (element_call [] [(''upstream_states'', Zipped els)]) [0..<length els])
      = sequence (map (\<lambda>el. app fn [] [(''upstream_states'', el)]) els)"
    unfolding call_each_def map_map
    using map_nth_upt [of "\<lambda>el. app fn [] [(''upstream_states'', el)]" els]
    by (simp add: element_call_def comp_def)
  have al: "bags_misaligned ([] @ map snd [(''upstream_states'', Zipped els :: 'a bagarg)])
      = False"
    by (simp add: bags_misaligned_def)
  have len: "bag_length ([] @ map snd [(''upstream_states'', Zipped els :: 'a bagarg)])
      = Inr (length els)"
    by (simp add: bag_length_def)
  have kw: "sequence (map (\<lambda>kv. bind (bag_kwarg (snd kv) (force app (snd kv)))
        (\<lambda>b. return (fst kv, b))) [(''upstream_states'', b)]) s
      = (Inr [(''upstream_states'', Zipped els)], s1)"
    using assms by (simp add: bag_kwarg_def bind_def return_def lift_def)
  have "force app (BagMap (Fn fn) [] [(''upstream_states'', b)]) s
      = bind (sequence (map (\<lambda>kv. bind (bag_kwarg (snd kv) (force app (snd kv)))
            (\<lambda>b. return (fst kv, b))) [(''upstream_states'', b)]))
          (\<lambda>bkw. bind (lift (bag_length ([] @ map snd bkw)))
            (\<lambda>n. bind (call_each app (Fn fn) (map (element_call [] bkw) [0..<n]))
              (\<lambda>rs. if bags_misaligned ([] @ map snd bkw) then lift (Inl misaligned_error)
                   else return (VList rs)))) s"
    by (simp only: force.simps list.map sequence.simps bind_return_left)
  also have "\<dots> = bind (lift (bag_length ([] @ map snd [(''upstream_states'', Zipped els)])))
            (\<lambda>n. bind (call_each app (Fn fn)
                (map (element_call [] [(''upstream_states'', Zipped els)]) [0..<n]))
              (\<lambda>rs. if bags_misaligned ([] @ map snd [(''upstream_states'', Zipped els)])
                   then lift (Inl misaligned_error) else return (VList rs))) s1"
    using kw by (rule bind_Inr)
  also have "\<dots> = bind (sequence (map (\<lambda>el. app fn [] [(''upstream_states'', el)]) els))
        (\<lambda>rs. return (VList rs)) s1"
    unfolding len al bind_lift_Inr calls by simp
  finally show ?thesis .
qed

lemma force_bagged_single:
  assumes "\<not> pending (VList xs)"
  shows "force app (BagMap UnpackDictToBag [bag_of (VList xs)] [(''keys'', VTuple [VEdge e])]) s
    = (Inr (VList (map (\<lambda>x. VDict [(VEdge e, x)]) xs)), s)"
proof -
  have f: "force app (bag_of (VList xs)) = return (VList xs)"
    using assms by (rule force_bag_of_list)
  have ib: "is_bag (bag_of (VList xs))"
    by (simp add: bag_of_def)
  have "bag_arg (bag_of (VList xs)) (force app (bag_of (VList xs))) = return (Zipped xs)"
    unfolding bag_arg_def f using ib by (simp add: bind_return_left lift_Inr)
  then have a: "sequence (map (\<lambda>x. bag_arg x (force app x)) [bag_of (VList xs)]) s
      = (Inr [Zipped xs], s)"
    by (simp add: bind_def return_def)
  have n: "bag_length [Zipped xs] = Inr (length xs)"
    by (simp add: bag_length_def)
  have al: "\<not> bags_misaligned [Zipped xs]"
    by (simp add: bags_misaligned_def)
  have "map (\<lambda>i. VDict (dict_of (zip [VEdge e] (map (pick i) [Zipped xs])))) [0..<length xs]
      = map (\<lambda>i. (\<lambda>x. VDict [(VEdge e, x)]) (xs ! i)) [0..<length xs]"
    by (simp add: dict_of_def dict_update_def)
  also have "\<dots> = map (\<lambda>x. VDict [(VEdge e, x)]) xs"
    by (rule map_nth_upt)
  finally show ?thesis
    using force_unpack [OF a n al, of "[VEdge e]"] by simp
qed









text \<open>Unfolding sets for evaluating runs and calls of \<^verbatim>\<open>map\<close> on given inputs.\<close>

lemmas run_defs = bind_def return_def lift_def bag_arg_def bag_kwarg_def bag_of_def
  bag_length_def bags_misaligned_def call_each_def element_call_def dict_of_def dict_update_def


section \<open>Resolution depth of wait\<close>

text \<open>
  C1, as the specification states it: \<^verbatim>\<open>wait\<close> resolves pending computations nested
  to any depth, leaving no pending wrapper. A delayed call nested five deep comes back from
  \<^verbatim>\<open>wait\<close> with its innermost delayed call still pending.
\<close>

theorem wait_leaves_pending_at_depth_five:
  "wait nested_fn (VList [submit 4 [] []]) None () = (Inr (VList [Delayed (Fn 0) [] []]), ())
   \<and> pending (VList [Delayed (Fn 0) [] [] :: nat val])"
  by (simp add: wait_def submit_def bind_def return_def nested_fn_def)

text \<open>
  C1, amended: \<^verbatim>\<open>wait\<close> makes four passes of \<^verbatim>\<open>dask.compute\<close>. Futures that are free
  of pending wrappers after \<open>k \<le> 4\<close> passes, that is, pending computations nested at most
  four deep, come back fully resolved, as that value.
\<close>

theorem wait_resolves_four_levels:
  assumes "k \<le> 4" and "passes app k futures s = (Inr r, s')" and "\<not> pending r"
  shows "wait app futures timeout s = (Inr r, s') \<and> \<not> pending r"
  using assms by (simp add: wait_after_passes)

theorem wait_resolves_four_levels_witness:
  "(4::nat) \<le> 4 \<and> passes nested_fn 4 (VList [submit 3 [] []]) () = (Inr (VList [VInt 42]), ())
   \<and> \<not> pending (VList [VInt 42 :: nat val])
   \<and> wait nested_fn (VList [submit 3 [] []]) None () = (Inr (VList [VInt 42]), ())"
proof -
  have p: "passes nested_fn 4 (VList [submit 3 [] []]) () = (Inr (VList [VInt 42]), ())"
    by (simp add: numeral_eq_Suc submit_def bind_def return_def nested_fn_def)
  have r: "\<not> pending (VList [VInt 42 :: nat val])" by simp
  show ?thesis
    using wait_resolves_four_levels [OF order_refl p r, of None] p r by simp
qed

section \<open>The timeout of wait\<close>

text \<open>
  C2. \<^verbatim>\<open>wait\<close> with a timeout of zero on a Future whose function runs: the call
  returns the computed values, not a timeout error. The body of \<^verbatim>\<open>wait\<close> never reads
  \<^verbatim>\<open>timeout\<close>.
\<close>

theorem wait_ignores_zero_timeout:
  "wait counting_fn (VList [submit () [] []]) (Some 0) 0 = (Inr (VList [VInt 42]), 1)"
  by (simp add: wait_def submit_def bind_def return_def counting_fn_def)

lemma wait_timeout_unread: "wait app futures timeout = wait app futures None"
  by (simp add: wait_def)

section \<open>Exceptions raised by a submitted function\<close>

text \<open>
  C3, as the specification states it: \<^verbatim>\<open>wait\<close> on a Future whose function raises
  \<^verbatim>\<open>ValueError("x")\<close> surfaces a TaskExecutionError that wraps it. What \<^verbatim>\<open>wait\<close> raises
  is the ValueError itself.
\<close>

theorem wait_raises_raw_exception:
  "fst (wait raising_fn (VList [submit () [] []]) None 0) = Inl (Exn ''ValueError'' ''x'')
   \<and> raised_class (fst (wait raising_fn (VList [submit () [] []]) None 0))
       \<noteq> Some ''TaskExecutionError''"
  by (simp add: wait_def submit_def bind_def return_def raising_fn_def raised_class_def)

text \<open>
  C3, amended: when the function of a Future made by \<^verbatim>\<open>submit\<close> raises an exception on
  its (resolved) arguments, \<^verbatim>\<open>wait\<close> on that Future, alone or in a list, raises that
  same exception, unwrapped, in the state the function left.
\<close>

theorem wait_propagates_fn_exception:
  assumes "\<not> pending (VList args)" and "\<not> pending (VList (map snd kwargs))"
    and "app fn args kwargs s = (Inl e, s')"
  shows "wait app (submit fn args kwargs) timeout s = (Inl e, s')
    \<and> wait app (VList [submit fn args kwargs]) timeout s = (Inl e, s')"
proof -
  have f: "force app (submit fn args kwargs) s = (Inl e, s')"
    using assms by (simp add: force_submit_resolved_args)
  then have "force app (VList [submit fn args kwargs]) s = (Inl e, s')"
    by (simp add: bind_def)
  with f show ?thesis
    by (simp add: wait_def bind_Inl)
qed

theorem wait_propagates_fn_exception_witness:
  "\<not> pending (VList ([] :: unit val list)) \<and> \<not> pending (VList (map snd ([] :: unit kwargs)))
   \<and> raising_fn () [] [] 0 = (Inl (Exn ''ValueError'' ''x''), 1)
   \<and> wait raising_fn (submit () [] []) None 0 = (Inl (Exn ''ValueError'' ''x''), 1)
   \<and> wait raising_fn (VList [submit () [] []]) None 0 = (Inl (Exn ''ValueError'' ''x''), 1)"
proof -
  have a: "\<not> pending (VList ([] :: unit val list))" by simp
  have k: "\<not> pending (VList (map snd ([] :: unit kwargs)))" by simp
  have r: "raising_fn () [] [] 0 = (Inl (Exn ''ValueError'' ''x''), 1)"
    by (simp add: raising_fn_def)
  show ?thesis
    using wait_propagates_fn_exception [where args = "[]" and kwargs = "[]"
        and app = raising_fn and fn = "()" and s = 0 and timeout = None, OF a k r] a k r
    by simp
qed

section \<open>Waiting twice\<close>

text \<open>
  C5, as the specification states it: a second \<^verbatim>\<open>wait\<close> on the same Future returns the
  same value without running the function again. The second call, started in the state
  the first one left, runs the function once more: the count goes from 1 to 2.
\<close>

theorem wait_twice_runs_fn_twice:
  "wait counting_fn (VList [submit () [] []]) None 0 = (Inr (VList [VInt 42]), 1)
   \<and> wait counting_fn (VList [submit () [] []]) None 1 = (Inr (VList [VInt 42]), 2)"
  by (simp add: wait_def submit_def bind_def return_def counting_fn_def)

text \<open>
  C5, amended: \<^verbatim>\<open>wait\<close> on a value with no pending wrapper returns it unchanged and runs
  nothing, so waiting on what \<^verbatim>\<open>wait\<close> returned is idempotent. A Future keeps no
  result: every \<^verbatim>\<open>wait\<close> on it runs its function, from the state of that moment.
\<close>

theorem wait_idempotent_on_resolved:
  "(\<not> pending v \<longrightarrow> wait app v timeout s = (Inr v, s))
   \<and> (app fn [] [] s = (Inr r, s') \<and> \<not> pending r \<longrightarrow>
        wait app (VList [submit fn [] []]) timeout s = (Inr (VList [r]), s'))"
proof (intro conjI impI)
  assume "\<not> pending v"
  then show "wait app v timeout s = (Inr v, s)"
    by (simp add: wait_passes passes_resolved return_def)
next
  assume a: "app fn [] [] s = (Inr r, s') \<and> \<not> pending r"
  then have "force app (VList [submit fn [] []]) s = (Inr (VList [r]), s')"
    by (simp add: submit_def bind_def return_def)
  then have "passes app 1 (VList [submit fn [] []]) s = (Inr (VList [r]), s')"
    by (simp add: passes_zero bind_return_right)
  moreover have "\<not> pending (VList [r])" using a by simp
  ultimately show "wait app (VList [submit fn [] []]) timeout s = (Inr (VList [r]), s')"
    using wait_after_passes [of 1 app "VList [submit fn [] []]" s "VList [r]" s' timeout]
    by simp
qed

theorem wait_idempotent_on_resolved_witness:
  "\<not> pending (VList [VInt 42 :: unit val])
   \<and> wait counting_fn (VList [VInt 42]) None 1 = (Inr (VList [VInt 42]), 1)
   \<and> counting_fn () [] [] 1 = (Inr (VInt 42), 2) \<and> \<not> pending (VInt 42 :: unit val)
   \<and> wait counting_fn (VList [submit () [] []]) None 1 = (Inr (VList [VInt 42]), 2)"
  using wait_idempotent_on_resolved [of "VList [VInt 42]" counting_fn None 1 "()" "VInt 42" 2]
  by (simp add: counting_fn_def)

section \<open>The scope of start\<close>

text \<open>
  C8. Whatever the scope body does, and whether it returns or raises, \<^verbatim>\<open>start\<close> hands
  the body's outcome on, and the scheduler setting is afterwards what it was before
  \<^verbatim>\<open>start\<close>; when the body leaves the configuration alone, the whole configuration is
  as it was before.
\<close>

theorem start_restores_scheduler:
  "fst (start body config) = fst (body (config(''scheduler'' \<mapsto> ''synchronous'')))
   \<and> snd (start body config) ''scheduler'' = config ''scheduler''
   \<and> (snd (body (config(''scheduler'' \<mapsto> ''synchronous'')))
          = config(''scheduler'' \<mapsto> ''synchronous'')
        \<longrightarrow> snd (start body config) = config)"
  by (auto simp: start_def config_set_def config_exit_def Let_def split: prod.splits sum.splits)

theorem start_restores_scheduler_witness:
  "snd (failing_body ([''scheduler'' \<mapsto> ''threads''](''scheduler'' \<mapsto> ''synchronous'')))
     = [''scheduler'' \<mapsto> ''threads''](''scheduler'' \<mapsto> ''synchronous'')
   \<and> fst (start failing_body [''scheduler'' \<mapsto> ''threads''])
     = Inl (Exn ''RuntimeError'' ''boom'')
   \<and> snd (start failing_body [''scheduler'' \<mapsto> ''threads'']) = [''scheduler'' \<mapsto> ''threads'']"
  using start_restores_scheduler [of failing_body "[''scheduler'' \<mapsto> ''threads'']"]
  by (simp add: failing_body_def)

section \<open>Calls of map with a missing or empty upstream_states\<close>

text \<open>
  C10. With an empty, non-None \<^verbatim>\<open>upstream_states\<close>, \<^verbatim>\<open>map\<close> raises at call time, at
  the unpacking of the zipped items into \<^verbatim>\<open>keys\<close> and \<^verbatim>\<open>values\<close> on line 73, and
  returns no collection.
\<close>

theorem map_empty_upstream_states_raises:
  "map_exec fn args (Some []) kwargs =
     (Inl (Exn ''ValueError'' ''not enough values to unpack (expected 2, got 0)''), Some [])"
  by (simp add: map_exec_def needs_bagging_def dict_of_def dict_update_def bagged_states_def
      unpack_items_def)

text \<open>
  C4, as the specification states it: with \<^verbatim>\<open>upstream_states\<close> None the call fails with
  a SubmissionError. The exception that line 55 raises is not of that class.
\<close>

theorem map_none_not_submission_error:
  "raised_class (fst (map_exec (0::nat) [] None [])) \<noteq> Some ''SubmissionError''"
  by (simp add: map_exec_def raised_class_def)

text \<open>
  C4, amended: with \<^verbatim>\<open>upstream_states\<close> None, \<^verbatim>\<open>map\<close> fails at call time with the
  AssertionError of line 55; no collection is registered and nothing is written to
  \<^verbatim>\<open>upstream_states\<close>.
\<close>

theorem map_none_assertion_error:
  "map_exec fn args None kwargs = (Inl (Exn ''AssertionError'' []), None)"
  by (simp add: map_exec_def)

section \<open>The caller's upstream_states after map\<close>

text \<open>
  C9. After a call of \<^verbatim>\<open>map\<close> with a dictionary \<^verbatim>\<open>upstream_states\<close>, whether the
  call returns or raises further on, the caller's dictionary holds, in the same order and
  under the same keys: for every mapped edge whose value \<open>v\<close> was not a bag, the bag
  \<^verbatim>\<open>dask.bag.from_delayed(dask.delayed(state_to_list)(v))\<close>, which is pending and not yet
  computed; for every other edge, the value it had.
\<close>

theorem map_mutates_upstream_states:
  assumes "distinct (map fst us)"
  shows "snd (map_exec fn args (Some us) kwargs)
    = Some (map (\<lambda>ev. if mapped (fst ev) \<and> \<not> is_bag (snd ev)
                       then (fst ev, BagFromDelayed (Delayed StateToList [snd ev] []))
                       else ev) us)"
proof -
  have "map bag_entry us
      = map (\<lambda>ev. if mapped (fst ev) \<and> \<not> is_bag (snd ev)
                   then (fst ev, BagFromDelayed (Delayed StateToList [snd ev] []))
                   else ev) us"
    by (simp add: bag_entry_def bag_of_def)
  then show ?thesis
    using upstream_states_after [OF assms]
    by (simp add: map_exec_def Let_def split: sum.splits)
qed

theorem map_mutates_upstream_states_witness:
  "distinct (map fst [(Edge ''a'' True, VList [VInt 1, VInt 2] :: unit val),
       (Edge ''b'' False, VInt 7),
       (Edge ''c'' True, BagFromDelayed (Delayed StateToList [VList []] []))])
   \<and> snd (map_exec () [] (Some [(Edge ''a'' True, VList [VInt 1, VInt 2]),
       (Edge ''b'' False, VInt 7),
       (Edge ''c'' True, BagFromDelayed (Delayed StateToList [VList []] []))]) [])
     = Some [(Edge ''a'' True, BagFromDelayed (Delayed StateToList [VList [VInt 1, VInt 2]] [])),
       (Edge ''b'' False, VInt 7),
       (Edge ''c'' True, BagFromDelayed (Delayed StateToList [VList []] []))]
   \<and> is_bag (BagFromDelayed (Delayed StateToList [VList [VInt 1, VInt 2]] []) :: unit val)
   \<and> pending (BagFromDelayed (Delayed StateToList [VList [VInt 1, VInt 2]] []) :: unit val)"
  using map_mutates_upstream_states [of "[(Edge ''a'' True, VList [VInt 1, VInt 2] :: unit val),
       (Edge ''b'' False, VInt 7),
       (Edge ''c'' True, BagFromDelayed (Delayed StateToList [VList []] []))]" "()" "[]" "[]"]
  by simp

section \<open>Order of a mapped call\<close>

text \<open>
  C6. For a mapped edge \<open>e\<close> whose upstream value is a list \<open>xs\<close> of resolved values,
  \<^verbatim>\<open>map(fn, upstream_states={e: xs})\<close> returns a collection whose element \<open>i\<close> is the
  dictionary that holds, under \<open>e\<close>, element \<open>i\<close> of \<open>xs\<close>; \<^verbatim>\<open>wait\<close> on it runs
  \<open>fn\<close> on these dictionaries one after the other in the order of \<open>xs\<close> and returns the
  list of the results in that order.
\<close>

theorem map_then_wait_in_order:
  assumes "mapped e" and "\<not> pending (VList xs)"
    and "sequence (map (\<lambda>x. app fn [] [(''upstream_states'', VDict [(VEdge e, x)])]) xs) s
           = (Inr rs, s')"
    and "\<not> pending (VList rs)"
  shows "map_exec fn [] (Some [(e, VList xs)]) []
      = (Inr (BagMap (Fn fn) [] [(''upstream_states'',
            BagMap UnpackDictToBag [bag_of (VList xs)] [(''keys'', VTuple [VEdge e])])]),
         Some [(e, bag_of (VList xs))])
    \<and> force app (BagMap UnpackDictToBag [bag_of (VList xs)] [(''keys'', VTuple [VEdge e])]) s
      = (Inr (VList (map (\<lambda>x. VDict [(VEdge e, x)]) xs)), s)
    \<and> wait app (BagMap (Fn fn) [] [(''upstream_states'',
            BagMap UnpackDictToBag [bag_of (VList xs)] [(''keys'', VTuple [VEdge e])])]) timeout s
      = (Inr (VList rs), s')"
proof (intro conjI)
  let ?b = "BagMap UnpackDictToBag [bag_of (VList xs)] [(''keys'', VTuple [VEdge e])]"
  show "map_exec fn [] (Some [(e, VList xs)]) []
      = (Inr (BagMap (Fn fn) [] [(''upstream_states'', ?b)]), Some [(e, bag_of (VList xs))])"
    using assms(1)
    by (simp add: map_exec_def needs_bagging_def dict_of_def dict_update_def bagged_states_def
        unpack_items_def bag_map_def bag_of_def)
  show b: "force app ?b s = (Inr (VList (map (\<lambda>x. VDict [(VEdge e, x)]) xs)), s)"
    using assms(2) by (rule force_bagged_single)
  have "force app (BagMap (Fn fn) [] [(''upstream_states'', ?b)]) s
      = bind (sequence (map (\<lambda>el. app fn [] [(''upstream_states'', el)])
            (map (\<lambda>x. VDict [(VEdge e, x)]) xs))) (\<lambda>rs. return (VList rs)) s"
    using b by (intro force_map_fn) simp_all
  also have "\<dots> = (Inr (VList rs), s')"
    using assms(3) by (simp add: map_map comp_def bind_def return_def)
  finally have "passes app 1 (BagMap (Fn fn) [] [(''upstream_states'', ?b)]) s = (Inr (VList rs), s')"
    by (simp add: passes_zero bind_return_right)
  then show "wait app (BagMap (Fn fn) [] [(''upstream_states'', ?b)]) timeout s = (Inr (VList rs), s')"
    using assms(4) by (intro wait_after_passes [of 1]) simp_all
qed

theorem map_then_wait_in_order_witness:
  "mapped (Edge ''e1'' True) \<and> \<not> pending (VList [VInt 1, VInt 2, VInt 3 :: unit val])
   \<and> sequence (map (\<lambda>x. times_ten () [] [(''upstream_states'', VDict [(VEdge (Edge ''e1'' True), x)])])
        [VInt 1, VInt 2, VInt 3]) 0 = (Inr [VInt 10, VInt 20, VInt 30], 3)
   \<and> \<not> pending (VList [VInt 10, VInt 20, VInt 30 :: unit val])
   \<and> (case map_exec () [] (Some [(Edge ''e1'' True, VList [VInt 1, VInt 2, VInt 3])]) [] of
        (Inr fut, after) \<Rightarrow> wait times_ten fut None 0 = (Inr (VList [VInt 10, VInt 20, VInt 30]), 3)
      | (Inl err, after) \<Rightarrow> False)"
proof -
  have m: "mapped (Edge ''e1'' True)" by simp
  have p: "\<not> pending (VList [VInt 1, VInt 2, VInt 3 :: unit val])" by simp
  have c: "sequence (map (\<lambda>x. times_ten () [] [(''upstream_states'', VDict [(VEdge (Edge ''e1'' True), x)])])
        [VInt 1, VInt 2, VInt 3]) 0 = (Inr [VInt 10, VInt 20, VInt 30], 3)"
    by (simp add: times_ten_def bind_def return_def)
  have r: "\<not> pending (VList [VInt 10, VInt 20, VInt 30 :: unit val])" by simp
  show ?thesis
    using map_then_wait_in_order [where app = times_ten and fn = "()" and timeout = None, OF m p c r] m p c r
    by simp
qed

section \<open>Bags of different lengths\<close>

text \<open>
  Two bags under \<^verbatim>\<open>dask.bag.map\<close>: when the first is one element longer, the result is
  cut to the shorter length without an error; when the second is longer, the function
  runs on the common part (the count reaches 2) and the computation then raises.
\<close>

lemma bag_map_first_longer_is_cut:
  "force counting_fn (BagMap (Fn ())
      [BagFromDelayed (Delayed StateToList [VList [VInt 1, VInt 2, VInt 3]] []),
       BagFromDelayed (Delayed StateToList [VList [VInt 10, VInt 20]] [])] []) 0
   = (Inr (VList [VInt 42, VInt 42]), 2)"
  by (simp add: run_defs counting_fn_def upt_rec)

lemma bag_map_second_longer_raises:
  "force counting_fn (BagMap (Fn ())
      [BagFromDelayed (Delayed StateToList [VList [VInt 10, VInt 20]] []),
       BagFromDelayed (Delayed StateToList [VList [VInt 1, VInt 2, VInt 3]] [])] []) 0
   = (Inl misaligned_error, 2)"
  by (simp add: run_defs counting_fn_def upt_rec)

lemma bag_map_task_tuple_raises:
  "raised_class (fst (force counting_fn (BagMap (Fn ())
      [BagFromDelayed (Delayed StateToList [VList [VInt 1]] []),
       VTuple [Delayed (Fn ()) [] [], VInt 1]] []) 0)) = Some ''TypeError''"
  by (simp add: run_defs raised_class_def)

section \<open>Broadcast of the values of non-mapped edges\<close>




end
